theory Spec2Isabelle
  imports Main "HOL-Library.Sublist"
begin

section \<open>Strings of the program\<close>

text \<open>
  A JavaScript string is a sequence of UTF-16 code units. The model uses \<^typ>\<open>string\<close>,
  one \<^typ>\<open>char\<close> per code unit, and so covers the strings whose code units are below 256
  (the Latin-1 range); every literal of the source is in that range.
\<close>

definition nl :: string where
  "nl = [CHR 0x0A]"

text \<open>\<^verbatim>\<open>String.prototype.toLowerCase\<close> on the Latin-1 range: A-Z and the accented capitals
  U+00C0..U+00DE (without the multiplication sign U+00D7) move up by 32.\<close>

definition toLowerCase_char :: "char \<Rightarrow> char" where
  "toLowerCase_char c =
     (let n = (of_char c :: nat)
      in if (65 \<le> n \<and> n \<le> 90) \<or> (192 \<le> n \<and> n \<le> 222 \<and> n \<noteq> 215)
         then char_of (n + 32) else c)"

definition toLowerCase :: "string \<Rightarrow> string" where
  "toLowerCase s = map toLowerCase_char s"

text \<open>\<^verbatim>\<open>s.startsWith(k)\<close> and \<^verbatim>\<open>s.includes(k)\<close>: \<open>k\<close> occurs in \<open>s\<close> at position 0, or at
  some position.\<close>

fun startsWith :: "string \<Rightarrow> string \<Rightarrow> bool" where
  "startsWith s [] = True"
| "startsWith [] (k # ks) = False"
| "startsWith (c # cs) (k # ks) = (c = k \<and> startsWith cs ks)"

fun includes_js :: "string \<Rightarrow> string \<Rightarrow> bool" where
  "includes_js [] k = (k = [])"
| "includes_js (c # cs) k = (startsWith (c # cs) k \<or> includes_js cs k)"

text \<open>\<^verbatim>\<open>content.split("\n")\<close>: the pieces between the newlines; a text without newline,
  the empty one too, is one piece.\<close>

fun split_nl :: "string \<Rightarrow> string list" where
  "split_nl [] = [[]]"
| "split_nl (c # cs) =
     (if c = CHR 0x0A then [] # split_nl cs
      else (case split_nl cs of [] \<Rightarrow> [[c]] | l # ls \<Rightarrow> (c # l) # ls))"

text \<open>\<^verbatim>\<open>xs.join(sep)\<close>.\<close>

fun join :: "string \<Rightarrow> string list \<Rightarrow> string" where
  "join sep [] = []"
| "join sep [x] = x"
| "join sep (x # y # ys) = x @ sep @ join sep (y # ys)"

section \<open>Document loader\<close>

text \<open>
  The outcome of \<^verbatim>\<open>fs.readFileSync(syntaxFilePath, "utf-8")\<close>: the decoded text, or the
  exception it throws, kept as the text that \<^verbatim>\<open>${error}\<close> renders.
\<close>

datatype read_result = ReadOk string | ReadError string

definition load_sentinel :: string where
  "load_sentinel = ''Error: Could not load Roc syntax reference file.''"

text \<open>\<open>loadSyntaxReference\<close> returns the text and what it wrote with \<^verbatim>\<open>console.error\<close>.\<close>

definition loadSyntaxReference :: "read_result \<Rightarrow> string \<times> string list" where
  "loadSyntaxReference r =
     (case r of
        ReadOk text \<Rightarrow> (text, [])
      | ReadError e \<Rightarrow> (load_sentinel, [''Failed to load syntax reference: '' @ e]))"

section \<open>Topic table\<close>

record topic_info =
  keywords_js :: "string list"
  description :: string

text \<open>\<open>TOPICS\<close> in declaration order, which is the order of \<^verbatim>\<open>Object.entries\<close>.\<close>

definition TOPICS :: "(string \<times> topic_info) list" where
  "TOPICS =
   [(''operators'',
       \<lparr>keywords_js = [''operator'', ''operators'', ''+'', ''-'', ''*'', ''/'', ''=='', ''!='',
                       ''<'', ''>'', ''<='', ''>='', ''and'', ''or'', ''not''],
        description = ''Arithmetic, comparison, and boolean operators''\<rparr>),
    (''pattern_matching'',
       \<lparr>keywords_js = [''match'', ''pattern'', ''case'', ''switch''],
        description = ''Pattern matching with match expressions''\<rparr>),
    (''list_patterns'',
       \<lparr>keywords_js = [''list'', ''array'', ''spread'', ''..''],
        description = ''List destructuring and pattern matching''\<rparr>),
    (''tag_unions'',
       \<lparr>keywords_js = [''tag'', ''union'', ''variant'', ''enum'', ''Ok'', ''Err'', ''Try''],
        description = ''Tag unions (sum types) and Result/Try types''\<rparr>),
    (''strings'',
       \<lparr>keywords_js = [''string'', ''str'', ''multiline'', ''interpolation'', ''unicode''],
        description = ''String literals, multiline strings, and interpolation''\<rparr>),
    (''effects'',
       \<lparr>keywords_js = [''effect'', ''effectful'', ''!'', ''io'', ''side effect''],
        description = ''Effectful functions (marked with !)''\<rparr>),
    (''loops'',
       \<lparr>keywords_js = [''for'', ''loop'', ''iterate'', ''var'', ''$''],
        description = ''For loops and mutable variables''\<rparr>),
    (''conditionals'',
       \<lparr>keywords_js = [''if'', ''else'', ''conditional'', ''branch''],
        description = ''If/else expressions''\<rparr>),
    (''tuples'',
       \<lparr>keywords_js = [''tuple'', ''pair'', ''triplet''],
        description = ''Tuple types and destructuring''\<rparr>),
    (''records'',
       \<lparr>keywords_js = [''record'', ''struct'', ''object'', ''field'', ''update''],
        description = ''Record types, access, and updates''\<rparr>),
    (''types'',
       \<lparr>keywords_js = [''type'', ''annotation'', ''signature'', ''where'', ''constraint''],
        description = ''Type annotations and constraints''\<rparr>),
    (''numbers'',
       \<lparr>keywords_js = [''number'', ''int'', ''float'', ''decimal'', ''u8'', ''i64'', ''f64'',
                       ''hex'', ''binary''],
        description = ''Numeric types and literals''\<rparr>),
    (''opaque'',
       \<lparr>keywords_js = [''opaque'', ''::'', ''newtype'', ''wrapper''],
        description = ''Opaque types for type-safe wrappers''\<rparr>),
    (''nominal'',
       \<lparr>keywords_js = [''nominal'', '':='', ''custom'', ''method'', ''is_eq''],
        description = ''Nominal types with custom methods''\<rparr>),
    (''functions'',
       \<lparr>keywords_js = [''function'', ''lambda'', ''arrow'', ''=>'', ''->'', ''return''],
        description = ''Function definitions and early returns''\<rparr>),
    (''imports'',
       \<lparr>keywords_js = [''import'', ''module'', ''as'', ''alias''],
        description = ''Module imports and aliases''\<rparr>),
    (''testing'',
       \<lparr>keywords_js = [''test'', ''expect'', ''assert''],
        description = ''Testing with expect and test blocks''\<rparr>)]"

section \<open>Topic resolver\<close>

text \<open>\<^verbatim>\<open>keywords.some((k) => queryLower.includes(k) || k.includes(queryLower))\<close>.\<close>

fun keywords_some :: "string \<Rightarrow> string list \<Rightarrow> bool" where
  "keywords_some queryLower [] = False"
| "keywords_some queryLower (k # ks) =
     (if includes_js queryLower k \<or> includes_js k queryLower then True
      else keywords_some queryLower ks)"

text \<open>The loop of the search handler over \<^verbatim>\<open>Object.entries(TOPICS)\<close>: the first entry
  that passes the test sets \<open>matchedTopic\<close> and \<open>matchedDescription\<close> and breaks; with no such
  entry \<open>matchedTopic\<close> stays \<open>null\<close>.\<close>

fun match_loop :: "(string \<times> topic_info) list \<Rightarrow> string \<Rightarrow> (string \<times> string) option" where
  "match_loop [] queryLower = None"
| "match_loop ((topic, info) # rest) queryLower =
     (if topic = queryLower \<or> keywords_some queryLower (keywords_js info)
      then Some (topic, description info)
      else match_loop rest queryLower)"

definition resolve :: "string \<Rightarrow> string option" where
  "resolve query = map_option fst (match_loop TOPICS (toLowerCase query))"

section \<open>Section parser\<close>

record SyntaxSection =
  name :: string
  content :: string
  startLine :: int
  endLine :: int

text \<open>
  The regular expressions of \<open>sectionPatterns\<close> are all of one shape: anchored at the start
  of the line, then literal text, \<^verbatim>\<open>\s*\<close> and \<^verbatim>\<open>\s+\<close> in sequence. None has a flag, so
  \<^verbatim>\<open>pattern.test(line)\<close> keeps no state between calls.
\<close>

datatype re_atom = Lit string | WsStar | WsPlus

text \<open>The class \<^verbatim>\<open>\s\<close> on the Latin-1 range: tab, line feed, vertical tab, form feed,
  carriage return, space and the no-break space.\<close>

definition is_space :: "char \<Rightarrow> bool" where
  "is_space c = (of_char c \<in> {9, 10, 11, 12, 13, 32, 160 :: nat})"

fun re_match :: "re_atom list \<Rightarrow> string \<Rightarrow> bool" where
  "re_match [] s = True"
| "re_match (Lit l # rest) s = (startsWith s l \<and> re_match rest (drop (length l) s))"
| "re_match (WsStar # rest) [] = re_match rest []"
| "re_match (WsStar # rest) (c # cs) =
     (re_match rest (c # cs) \<or> (is_space c \<and> re_match (WsStar # rest) cs))"
| "re_match (WsPlus # rest) [] = False"
| "re_match (WsPlus # rest) (c # cs) = (is_space c \<and> re_match (WsStar # rest) cs)"

definition test :: "re_atom list \<Rightarrow> string \<Rightarrow> bool" where
  "test pattern line = re_match pattern line"

definition sectionPatterns :: "(string \<times> re_atom list) list" where
  "sectionPatterns =
   [(''number_operators'', [Lit ''number_operators'', WsStar, Lit '':'']),
    (''boolean_operators'', [Lit ''boolean_operators'', WsStar, Lit '':'']),
    (''simple_match'', [Lit ''simple_match'', WsStar, Lit '':'']),
    (''match_list_patterns'', [Lit ''match_list_patterns'', WsStar, Lit '':'']),
    (''match_tag_union_advanced'', [Lit ''match_tag_union_advanced'', WsStar, Lit '':'']),
    (''multiline_str'', [Lit ''multiline_str'', WsStar, Lit '':'']),
    (''effect_demo'', [Lit ''effect_demo!'', WsStar, Lit '':'']),
    (''for_loop'', [Lit ''for_loop'', WsStar, Lit ''='']),
    (''dbg_keyword'', [Lit ''dbg_keyword'', WsStar, Lit ''='']),
    (''if_demo'', [Lit ''if_demo'', WsStar, Lit '':'']),
    (''tuple_demo'', [Lit ''tuple_demo'', WsStar, Lit ''='']),
    (''type_var'', [Lit ''type_var'', WsStar, Lit '':'']),
    (''destructuring'', [Lit ''destructuring'', WsStar, Lit ''='']),
    (''record_update_2'', [Lit ''record_update_2'', WsStar, Lit '':'']),
    (''number_literals'', [Lit ''number_literals'', WsStar, Lit ''='']),
    (''opaque_types'', [Lit ''Username'', WsStar, Lit ''::'']),
    (''nominal_types'', [Lit ''Animal'', WsStar, Lit '':='']),
    (''early_return'', [Lit ''early_return'', WsStar, Lit ''='']),
    (''where_clause'', [Lit ''stringify'', WsStar, Lit '':'']),
    (''main'', [Lit ''main!'', WsStar, Lit ''='']),
    (''imports'', [Lit ''import'', WsPlus]),
    (''app_header'', [Lit ''app'', WsStar, Lit ''['']) ]"

text \<open>The inner \<^verbatim>\<open>for (const { name, pattern } of sectionPatterns)\<close> with its \<open>break\<close>: the
  name of the first rule whose pattern passes, if any.\<close>

fun first_match :: "(string \<times> re_atom list) list \<Rightarrow> string \<Rightarrow> string option" where
  "first_match [] line = None"
| "first_match ((nm, pattern) # rules) line =
     (if test pattern line then Some nm else first_match rules line)"

text \<open>\<^verbatim>\<open>sectionPatterns.some((p) => p.pattern.test(line))\<close>.\<close>

fun patterns_some :: "(string \<times> re_atom list) list \<Rightarrow> string \<Rightarrow> bool" where
  "patterns_some [] line = False"
| "patterns_some ((nm, pattern) # rules) line =
     (if test pattern line then True else patterns_some rules line)"

text \<open>
  One pass of the outer loop, at the 0-based index \<open>i\<close>, on the pair of \<open>sections\<close> and
  \<open>currentSection\<close> (\<open>None\<close> is \<open>null\<close>). A pushed section is never written again, since
  \<open>currentSection\<close> is bound to a fresh object right after the push.
\<close>

definition parse_step ::
  "(string \<times> re_atom list) list \<Rightarrow> int \<Rightarrow> string \<Rightarrow>
   SyntaxSection list \<times> SyntaxSection option \<Rightarrow> SyntaxSection list \<times> SyntaxSection option" where
  "parse_step rules i line st =
     (let (sections, currentSection) = st;
          (sections1, current1) =
            (case first_match rules line of
               None \<Rightarrow> (sections, currentSection)
             | Some nm \<Rightarrow>
                 ((case currentSection of
                     None \<Rightarrow> sections
                   | Some c \<Rightarrow> sections @ [c\<lparr>endLine := i - 1\<rparr>]),
                  Some \<lparr>name = nm, content = line, startLine = i + 1, endLine = i + 1\<rparr>))
      in (case current1 of
            None \<Rightarrow> (sections1, None)
          | Some c \<Rightarrow>
              if \<not> patterns_some rules line
              then (sections1, Some (c\<lparr>content := content c @ nl @ line, endLine := i + 1\<rparr>))
              else (sections1, Some c)))"

fun parse_loop ::
  "(string \<times> re_atom list) list \<Rightarrow> int \<Rightarrow> string list \<Rightarrow>
   SyntaxSection list \<times> SyntaxSection option \<Rightarrow> SyntaxSection list \<times> SyntaxSection option" where
  "parse_loop rules i [] st = st"
| "parse_loop rules i (line # lines) st = parse_loop rules (i + 1) lines (parse_step rules i line st)"

text \<open>After the loop the open section, if there is one, is pushed.\<close>

definition finish :: "SyntaxSection list \<times> SyntaxSection option \<Rightarrow> SyntaxSection list" where
  "finish st = (case snd st of None \<Rightarrow> fst st | Some c \<Rightarrow> fst st @ [c])"

definition parseLines :: "(string \<times> re_atom list) list \<Rightarrow> string list \<Rightarrow> SyntaxSection list" where
  "parseLines rules lines = finish (parse_loop rules 0 lines ([], None))"

definition parseSyntaxSections :: "string \<Rightarrow> SyntaxSection list" where
  "parseSyntaxSections text = parseLines sectionPatterns (split_nl text)"

section \<open>Section selector\<close>

text \<open>\<^verbatim>\<open>sections.find((s) => s.name === nm)?.content || ""\<close>: the content of the first section
  of that name, and the empty string when there is none (or when its content is empty).\<close>

definition section_content :: "SyntaxSection list \<Rightarrow> string \<Rightarrow> string" where
  "section_content sections nm =
     (case find (\<lambda>s. name s = nm) sections of None \<Rightarrow> [] | Some s \<Rightarrow> content s)"

definition unicode_example :: string where
  "unicode_example = ''Unicode escape: '' @ [CHR 0x22, CHR 0x5C] @ ''u(00A0)'' @ [CHR 0x22]"

definition separator :: string where
  "separator = nl @ nl @ ''---'' @ nl @ nl"

text \<open>The \<open>switch\<close> on \<open>matchedTopic\<close>: what it pushes on \<open>relevantSections\<close>. It has no
  \<open>default\<close>, so any other value pushes nothing.\<close>

definition relevantSections :: "string \<Rightarrow> SyntaxSection list \<Rightarrow> string list \<Rightarrow> string list" where
  "relevantSections matchedTopic sections lines =
     (if matchedTopic = ''operators'' then
        [section_content sections ''number_operators'',
         section_content sections ''boolean_operators'']
      else if matchedTopic = ''pattern_matching'' then [section_content sections ''simple_match'']
      else if matchedTopic = ''list_patterns'' then
        [section_content sections ''match_list_patterns'']
      else if matchedTopic = ''tag_unions'' then
        [section_content sections ''match_tag_union_advanced'']
      else if matchedTopic = ''strings'' then
        [section_content sections ''multiline_str'', unicode_example]
      else if matchedTopic = ''effects'' then [section_content sections ''effect_demo'']
      else if matchedTopic = ''loops'' then [section_content sections ''for_loop'']
      else if matchedTopic = ''conditionals'' then [section_content sections ''if_demo'']
      else if matchedTopic = ''tuples'' then [section_content sections ''tuple_demo'']
      else if matchedTopic = ''records'' then
        [section_content sections ''destructuring'',
         section_content sections ''record_update_2'']
      else if matchedTopic = ''types'' then
        [section_content sections ''type_var'', section_content sections ''where_clause'']
      else if matchedTopic = ''numbers'' then [section_content sections ''number_literals'']
      else if matchedTopic = ''opaque'' then [section_content sections ''opaque_types'']
      else if matchedTopic = ''nominal'' then [section_content sections ''nominal_types'']
      else if matchedTopic = ''functions'' then [section_content sections ''early_return'']
      else if matchedTopic = ''imports'' then
        [join nl (filter (\<lambda>l. startsWith l ''import '') lines)]
      else if matchedTopic = ''testing'' then
        [join nl (filter (\<lambda>l. includes_js l ''expect '') lines)]
      else [])"

text \<open>\<^verbatim>\<open>relevantSections.filter(Boolean).join("\n\n---\n\n")\<close>: of strings, only the empty
  one is falsy.\<close>

definition examples_of :: "string \<Rightarrow> SyntaxSection list \<Rightarrow> string list \<Rightarrow> string" where
  "examples_of matchedTopic sections lines =
     join separator (filter (\<lambda>s. s \<noteq> []) (relevantSections matchedTopic sections lines))"

section \<open>Query handlers\<close>

record syntax_response =
  syntax_text :: string
  syntax_field :: string
  syntax_log :: "string list"

definition get_roc_syntax :: "read_result \<Rightarrow> syntax_response" where
  "get_roc_syntax r =
     (let (syntaxRef, log) = loadSyntaxReference r
      in \<lparr>syntax_text = syntaxRef, syntax_field = syntaxRef, syntax_log = log\<rparr>)"

record search_response =
  search_text :: string
  topic :: string
  topic_description :: string
  examples :: string
  search_log :: "string list"

definition topicList :: string where
  "topicList = join nl (map (\<lambda>(nm, info). ''- '' @ nm @ '': '' @ description info) TOPICS)"

definition search_roc_syntax :: "read_result \<Rightarrow> string \<Rightarrow> search_response" where
  "search_roc_syntax r query =
     (let (fullContent, log) = loadSyntaxReference r;
          sections = parseSyntaxSections fullContent;
          queryLower = toLowerCase query
      in (case match_loop TOPICS queryLower of
            None \<Rightarrow>
              \<lparr>search_text = ''No exact match for '' @ [CHR 0x22] @ query @ [CHR 0x22]
                   @ ''. Available topics:'' @ nl @ nl @ topicList,
               topic = ''help'',
               topic_description = ''Available topics'',
               examples = topicList,
               search_log = log\<rparr>
          | Some (matchedTopic, matchedDescription) \<Rightarrow>
              (let lines = split_nl fullContent;
                   examples = examples_of matchedTopic sections lines
               in \<lparr>search_text = ''## '' @ matchedTopic @ nl @ nl @ matchedDescription @ nl @ nl
                      @ ''### Examples:'' @ nl @ nl @ ''```roc'' @ nl @ examples @ nl @ ''```'',
                   topic = matchedTopic,
                   topic_description = matchedDescription,
                   examples = examples,
                   search_log = log\<rparr>)))"

record topic_entry =
  entry_name :: string
  entry_description :: string

record topics_response =
  topics_text :: string
  topics :: "topic_entry list"

definition list_roc_topics :: topics_response where
  "list_roc_topics =
     (let topics = map (\<lambda>(nm, info). \<lparr>entry_name = nm, entry_description = description info\<rparr>)
                     TOPICS;
          formatted = join nl (map (\<lambda>t. ''- **'' @ entry_name t @ ''**: '' @ entry_description t)
                                 topics)
      in \<lparr>topics_text = ''# Available Roc Syntax Topics'' @ nl @ nl @ formatted,
          topics = topics\<rparr>)"

section \<open>The specification's wording\<close>

text \<open>
  The matching test as the specification words it, on the lowercased query: the query
  equals the topic's own name, or some keyword of the topic is a contiguous part of the
  query, or the query is a contiguous part of some keyword.
\<close>

definition topic_matches :: "string \<Rightarrow> string \<times> topic_info \<Rightarrow> bool" where
  "topic_matches queryLower entry =
     (queryLower = fst entry \<or>
      (\<exists>k \<in> set (keywords_js (snd entry)). sublist k queryLower \<or> sublist queryLower k))"

text \<open>
  The topic-to-section mapping as the specification describes it, a table from the topic
  name to its contributions: the content of a named section, the raw lines that start with
  a marker, the raw lines that contain a marker, or a fixed literal.
\<close>

datatype contribution =
  FromSection string | LinesStartingWith string | LinesContaining string | FixedLiteral string

definition topic_mapping :: "(string \<times> contribution list) list" where
  "topic_mapping =
   [(''operators'', [FromSection ''number_operators'', FromSection ''boolean_operators'']),
    (''pattern_matching'', [FromSection ''simple_match'']),
    (''list_patterns'', [FromSection ''match_list_patterns'']),
    (''tag_unions'', [FromSection ''match_tag_union_advanced'']),
    (''strings'',
       [FromSection ''multiline_str'',
        FixedLiteral (''Unicode escape: '' @ [CHR 0x22, CHR 0x5C] @ ''u(00A0)'' @ [CHR 0x22])]),
    (''effects'', [FromSection ''effect_demo'']),
    (''loops'', [FromSection ''for_loop'']),
    (''conditionals'', [FromSection ''if_demo'']),
    (''tuples'', [FromSection ''tuple_demo'']),
    (''records'', [FromSection ''destructuring'', FromSection ''record_update_2'']),
    (''types'', [FromSection ''type_var'', FromSection ''where_clause'']),
    (''numbers'', [FromSection ''number_literals'']),
    (''opaque'', [FromSection ''opaque_types'']),
    (''nominal'', [FromSection ''nominal_types'']),
    (''functions'', [FromSection ''early_return'']),
    (''imports'', [LinesStartingWith ''import '']),
    (''testing'', [LinesContaining ''expect ''])]"

text \<open>Joining as the specification has it: the first block, then every further block with
  the separator in front of it.\<close>

definition joined_with :: "string \<Rightarrow> string list \<Rightarrow> string" where
  "joined_with sep blocks =
     (case blocks of [] \<Rightarrow> [] | b # rest \<Rightarrow> b @ concat (map (\<lambda>r. sep @ r) rest))"

text \<open>A missing section contributes the empty string; a present one the content of the
  first section of that name. Raw lines are put together with a newline between them.\<close>

fun contribution_text :: "SyntaxSection list \<Rightarrow> string list \<Rightarrow> contribution \<Rightarrow> string" where
  "contribution_text sections lines (FromSection nm) =
     (if nm \<in> name ` set sections then content (hd (filter (\<lambda>s. name s = nm) sections))
      else [])"
| "contribution_text sections lines (LinesStartingWith marker) =
     joined_with [CHR 0x0A] (filter (\<lambda>l. prefix marker l) lines)"
| "contribution_text sections lines (LinesContaining marker) =
     joined_with [CHR 0x0A] (filter (\<lambda>l. sublist marker l) lines)"
| "contribution_text sections lines (FixedLiteral text) = text"

text \<open>The empty contributions are filtered out and the others joined with the separator:
  two newlines, three dashes, two newlines.\<close>

definition select_examples :: "string \<Rightarrow> SyntaxSection list \<Rightarrow> string list \<Rightarrow> string" where
  "select_examples topicName sections lines =
     (case map_of topic_mapping topicName of
        None \<Rightarrow> []
      | Some cs \<Rightarrow>
          joined_with [CHR 0x0A, CHR 0x0A, CHR ''-'', CHR ''-'', CHR ''-'', CHR 0x0A, CHR 0x0A]
            (filter (\<lambda>s. s \<noteq> []) (map (contribution_text sections lines) cs)))"

section \<open>Invariant of the parser's loop\<close>

text \<open>
  What holds of a section that was pushed (\<open>closed_ok\<close>) and of the open one (\<open>open_ok\<close>)
  once the lines \<open>seen\<close> have been processed. Line numbers are the recorded ones: the
  header of a section is the line of 0-based index \<open>startLine - 1\<close>.
\<close>

definition header_ok :: "(string \<times> re_atom list) list \<Rightarrow> string list \<Rightarrow> SyntaxSection \<Rightarrow> bool" where
  "header_ok rules seen s =
     (1 \<le> startLine s \<and> startLine s \<le> int (length seen) \<and>
      first_match rules (seen ! nat (startLine s - 1)) = Some (name s))"

definition closed_ok :: "(string \<times> re_atom list) list \<Rightarrow> string list \<Rightarrow> SyntaxSection \<Rightarrow> bool" where
  "closed_ok rules seen s =
     (header_ok rules seen s \<and> startLine s \<le> endLine s + 1 \<and>
      endLine s + 2 \<le> int (length seen) \<and>
      first_match rules (seen ! nat (endLine s + 1)) \<noteq> None \<and>
      content s =
        join nl (take (nat (endLine s + 2 - startLine s)) (drop (nat (startLine s - 1)) seen)))"

definition open_ok :: "(string \<times> re_atom list) list \<Rightarrow> string list \<Rightarrow> SyntaxSection \<Rightarrow> bool" where
  "open_ok rules seen c =
     (header_ok rules seen c \<and> endLine c = int (length seen) \<and>
      content c = join nl (drop (nat (startLine c - 1)) seen))"

definition adjacent :: "SyntaxSection \<Rightarrow> SyntaxSection \<Rightarrow> bool" where
  "adjacent a b = (startLine a < startLine b \<and> startLine b = endLine a + 2)"

definition parse_inv ::
  "(string \<times> re_atom list) list \<Rightarrow> string list \<Rightarrow>
   SyntaxSection list \<times> SyntaxSection option \<Rightarrow> bool" where
  "parse_inv rules seen st =
     (list_all (closed_ok rules seen) (fst st) \<and>
      (case snd st of None \<Rightarrow> fst st = [] | Some c \<Rightarrow> open_ok rules seen c) \<and>
      successively adjacent (finish st) \<and>
      (\<forall>j < length seen. first_match rules (seen ! j) \<noteq> None \<longrightarrow>
         (\<exists>s \<in> set (finish st). startLine s = int j + 1)))"

text \<open>Moving a section down by \<open>d\<close> lines.\<close>

definition shift_section :: "int \<Rightarrow> SyntaxSection \<Rightarrow> SyntaxSection" where
  "shift_section d s = s\<lparr>startLine := startLine s + d, endLine := endLine s + d\<rparr>"

section \<open>Properties of the topic resolver\<close>

lemma startsWith_prefix: "startsWith s k \<longleftrightarrow> prefix k s"
  by (induction s k rule: startsWith.induct) auto

lemma includes_js_sublist: "includes_js s k \<longleftrightarrow> sublist k s"
  by (induction s) (simp_all add: startsWith_prefix sublist_Cons_right)

lemma keywords_some_iff:
  "keywords_some q ks \<longleftrightarrow> (\<exists>k \<in> set ks. sublist k q \<or> sublist q k)"
  by (induction ks) (auto simp: includes_js_sublist)

lemma match_loop_find:
  "match_loop table q =
     map_option (\<lambda>e. (fst e, description (snd e))) (find (topic_matches q) table)"
  by (induction table q rule: match_loop.induct)
     (simp_all add: topic_matches_def keywords_some_iff)

lemma resolve_find:
  "resolve query = map_option fst (find (topic_matches (toLowerCase query)) TOPICS)"
  by (simp add: resolve_def match_loop_find option.map_comp comp_def)

lemma search_topic_resolve:
  "topic (search_roc_syntax r query) = (case resolve query of None \<Rightarrow> ''help'' | Some t \<Rightarrow> t)"
  by (simp add: search_roc_syntax_def resolve_def Let_def split: prod.splits option.splits)

text \<open>
  Claim C1: for every topic name \<open>T\<close> of the topic table, resolving the query \<open>T\<close> returns
  \<open>T\<close>. The handler's loop tests the name and the keywords of one entry at a time and stops
  at the first entry that passes, so an earlier entry with a keyword inside \<open>T\<close> wins over
  the entry named \<open>T\<close>. The results for the seventeen names, in table order: twelve resolve
  to themselves; \<open>list_patterns\<close> gives \<open>pattern_matching\<close> (keyword \<open>pattern\<close>),
  \<open>conditionals\<close> and \<open>functions\<close> give \<open>effects\<close> (keyword \<open>io\<close>), \<open>records\<close> and
  \<open>imports\<close> give \<open>operators\<close> (keyword \<open>or\<close>).
\<close>

theorem resolve_topic_names:
  "map (\<lambda>e. resolve (fst e)) TOPICS =
     [Some ''operators'', Some ''pattern_matching'', Some ''pattern_matching'',
      Some ''tag_unions'', Some ''strings'', Some ''effects'', Some ''loops'',
      Some ''effects'', Some ''tuples'', Some ''operators'', Some ''types'',
      Some ''numbers'', Some ''opaque'', Some ''nominal'', Some ''effects'',
      Some ''operators'', Some ''testing''] \<and>
   resolve ''records'' = Some ''operators'' \<and>
   topic (search_roc_syntax r ''records'') = ''operators''"
proof -
  have all: "map (\<lambda>e. resolve (fst e)) TOPICS =
     [Some ''operators'', Some ''pattern_matching'', Some ''pattern_matching'',
      Some ''tag_unions'', Some ''strings'', Some ''effects'', Some ''loops'',
      Some ''effects'', Some ''tuples'', Some ''operators'', Some ''types'',
      Some ''numbers'', Some ''opaque'', Some ''nominal'', Some ''effects'',
      Some ''operators'', Some ''testing'']"
    by code_simp
  have one: "resolve ''records'' = Some ''operators''"
    by code_simp
  from all one show ?thesis
    by (simp add: search_topic_resolve)
qed

text \<open>
  Claim C2, as stated: the empty query and \<open>xyz-no-such-topic\<close> both yield no match and the
  help listing. Neither does: every keyword contains the empty string, and the second query
  contains the keyword \<open>-\<close>, so both resolve to the first topic.
\<close>

theorem resolve_empty_and_dash_counterexample:
  "resolve '''' = Some ''operators'' \<and> resolve ''xyz-no-such-topic'' = Some ''operators'' \<and>
   topic (search_roc_syntax (ReadOk '''') '''') = ''operators'' \<and>
   topic (search_roc_syntax (ReadOk '''') ''xyz-no-such-topic'') = ''operators''"
proof -
  have a: "resolve '''' = Some ''operators''" by code_simp
  have b: "resolve ''xyz-no-such-topic'' = Some ''operators''" by code_simp
  show ?thesis by (simp add: search_topic_resolve a b)
qed

text \<open>
  Claim C2, amended: the query \<open>zzz\<close> yields no match; whenever the resolver yields no
  match, the search handler answers with the topic \<open>help\<close>, the description
  \<open>Available topics\<close> and the listing of all topics as examples; the empty query and
  \<open>xyz-no-such-topic\<close> resolve to \<open>operators\<close>.
\<close>

theorem no_match_gives_help:
  "resolve ''zzz'' = None \<and>
   resolve '''' = Some ''operators'' \<and> resolve ''xyz-no-such-topic'' = Some ''operators'' \<and>
   (resolve q = None \<longrightarrow>
      topic (search_roc_syntax r q) = ''help'' \<and>
      topic_description (search_roc_syntax r q) = ''Available topics'' \<and>
      examples (search_roc_syntax r q) = topicList)"
proof -
  have a: "resolve ''zzz'' = None" by code_simp
  have b: "resolve '''' = Some ''operators''" by code_simp
  have c: "resolve ''xyz-no-such-topic'' = Some ''operators''" by code_simp
  have d: "resolve q = None \<longrightarrow>
      topic (search_roc_syntax r q) = ''help'' \<and>
      topic_description (search_roc_syntax r q) = ''Available topics'' \<and>
      examples (search_roc_syntax r q) = topicList"
    by (simp add: search_roc_syntax_def resolve_def Let_def split: prod.splits option.splits)
  from a b c d show ?thesis by blast
qed

theorem no_match_gives_help_witness:
  "resolve ''zzz'' = None \<and>
   topic (search_roc_syntax (ReadError ''ENOENT'') ''zzz'') = ''help'' \<and>
   topic_description (search_roc_syntax (ReadError ''ENOENT'') ''zzz'') = ''Available topics'' \<and>
   examples (search_roc_syntax (ReadError ''ENOENT'') ''zzz'') = topicList"
  using no_match_gives_help [of "''zzz''" "ReadError ''ENOENT''"] by simp

text \<open>
  Claim C3: for every query the resolver returns the first topic, in table order, whose name
  equals the lowercased query or one of whose keywords contains, or is contained in, the
  lowercased query; and it returns no topic exactly when no entry passes that test.
\<close>

theorem resolve_first_match:
  "(resolve q = Some t \<longleftrightarrow>
      (\<exists>i < length TOPICS. fst (TOPICS ! i) = t \<and> topic_matches (toLowerCase q) (TOPICS ! i) \<and>
         (\<forall>j < i. \<not> topic_matches (toLowerCase q) (TOPICS ! j)))) \<and>
   (resolve q = None \<longleftrightarrow> (\<forall>i < length TOPICS. \<not> topic_matches (toLowerCase q) (TOPICS ! i)))"
proof
  show "resolve q = Some t \<longleftrightarrow>
      (\<exists>i < length TOPICS. fst (TOPICS ! i) = t \<and> topic_matches (toLowerCase q) (TOPICS ! i) \<and>
         (\<forall>j < i. \<not> topic_matches (toLowerCase q) (TOPICS ! j)))"
  proof
    assume "resolve q = Some t"
    then obtain e where e: "find (topic_matches (toLowerCase q)) TOPICS = Some e" "fst e = t"
      unfolding resolve_find by auto
    from e(1) obtain i where "i < length TOPICS" "topic_matches (toLowerCase q) (TOPICS ! i)"
      "e = TOPICS ! i" "\<forall>j < i. \<not> topic_matches (toLowerCase q) (TOPICS ! j)"
      unfolding find_Some_iff by blast
    with e(2) show "\<exists>i < length TOPICS. fst (TOPICS ! i) = t \<and>
        topic_matches (toLowerCase q) (TOPICS ! i) \<and>
        (\<forall>j < i. \<not> topic_matches (toLowerCase q) (TOPICS ! j))"
      by blast
  next
    assume "\<exists>i < length TOPICS. fst (TOPICS ! i) = t \<and>
        topic_matches (toLowerCase q) (TOPICS ! i) \<and>
        (\<forall>j < i. \<not> topic_matches (toLowerCase q) (TOPICS ! j))"
    then obtain i where i: "i < length TOPICS" "fst (TOPICS ! i) = t"
      "topic_matches (toLowerCase q) (TOPICS ! i)"
      "\<forall>j < i. \<not> topic_matches (toLowerCase q) (TOPICS ! j)"
      by blast
    then have "find (topic_matches (toLowerCase q)) TOPICS = Some (TOPICS ! i)"
      unfolding find_Some_iff by blast
    with i(2) show "resolve q = Some t"
      unfolding resolve_find by simp
  qed
  show "resolve q = None \<longleftrightarrow> (\<forall>i < length TOPICS. \<not> topic_matches (toLowerCase q) (TOPICS ! i))"
    unfolding resolve_find map_option_is_None find_None_iff
    by (metis in_set_conv_nth)
qed

theorem resolve_first_match_witness:
  "\<exists>i < length TOPICS. fst (TOPICS ! i) = ''pattern_matching'' \<and>
      topic_matches (toLowerCase ''Pattern Matching'') (TOPICS ! i) \<and>
      (\<forall>j < i. \<not> topic_matches (toLowerCase ''Pattern Matching'') (TOPICS ! j))"
proof -
  have "resolve ''Pattern Matching'' = Some ''pattern_matching''" by code_simp
  then show ?thesis
    using resolve_first_match [of "''Pattern Matching''" "''pattern_matching''"] by simp
qed

section \<open>Properties of the loader and of the handlers\<close>

text \<open>
  Claim C5: when the read succeeds, the text and the structured field of the answer of
  \<open>get_roc_syntax\<close> are the text that was read, unchanged; when it fails, both are the
  sentinel string.
\<close>

theorem get_roc_syntax_round_trip:
  "get_roc_syntax (ReadOk text) =
     \<lparr>syntax_text = text, syntax_field = text, syntax_log = []\<rparr> \<and>
   syntax_text (get_roc_syntax (ReadError e)) = load_sentinel \<and>
   syntax_field (get_roc_syntax (ReadError e)) = load_sentinel"
  by (simp add: get_roc_syntax_def loadSyntaxReference_def)

text \<open>
  Claim C6, as stated: the sentinel string embeds the failure detail. It does not: the
  string returned for a failure is the same for every failure and none of the detail is in
  it.
\<close>

theorem sentinel_embeds_detail_counterexample:
  "fst (loadSyntaxReference (ReadError ''ENOENT: no such file or directory'')) =
     fst (loadSyntaxReference (ReadError ''EACCES: permission denied'')) \<and>
   \<not> includes_js (fst (loadSyntaxReference (ReadError ''ENOENT: no such file or directory'')))
        ''ENOENT''"
  by code_simp

text \<open>
  Claim C6, amended: on a failed read the loader returns, instead of raising, the one fixed
  string \<open>load_sentinel\<close>, whatever the failure; the failure detail goes to the diagnostic
  stream only. Both callers go on with the sentinel as the document text: \<open>get_roc_syntax\<close>
  returns it, and \<open>search_roc_syntax\<close> answers as it does for a document whose text is the
  sentinel, in which the parser finds no section.
\<close>

theorem load_failure_sentinel:
  "loadSyntaxReference (ReadError e) =
     (load_sentinel, [''Failed to load syntax reference: '' @ e]) \<and>
   syntax_field (get_roc_syntax (ReadError e)) = load_sentinel \<and>
   search_roc_syntax (ReadError e) q =
     (search_roc_syntax (ReadOk load_sentinel) q)
       \<lparr>search_log := [''Failed to load syntax reference: '' @ e]\<rparr> \<and>
   parseSyntaxSections load_sentinel = []"
proof -
  have "parseSyntaxSections load_sentinel = []"
    by code_simp
  then show ?thesis
    by (simp add: loadSyntaxReference_def get_roc_syntax_def search_roc_syntax_def Let_def
          split: option.splits prod.splits)
qed

text \<open>
  Claim C9: \<open>list_roc_topics\<close> returns one entry per entry of the topic table, in the order
  of the table, each with the name and the description of its topic, and no name twice.
\<close>

theorem list_roc_topics_entries:
  "topics list_roc_topics =
     map (\<lambda>e. \<lparr>entry_name = fst e, entry_description = description (snd e)\<rparr>) TOPICS \<and>
   length (topics list_roc_topics) = 17 \<and>
   distinct (map entry_name (topics list_roc_topics)) \<and>
   map entry_name (topics list_roc_topics) =
     [''operators'', ''pattern_matching'', ''list_patterns'', ''tag_unions'', ''strings'',
      ''effects'', ''loops'', ''conditionals'', ''tuples'', ''records'', ''types'', ''numbers'',
      ''opaque'', ''nominal'', ''functions'', ''imports'', ''testing'']"
  by code_simp

section \<open>Properties of the section parser\<close>

text \<open>
  Claim C4: the lines \<open>junk\<close>, \<open>foo:\<close>, \<open>a\<close>, \<open>b\<close>, \<open>bar=\<close>, \<open>c\<close> against the rules
  \<open>foo\<close> (starts with \<open>foo:\<close>) and \<open>bar\<close> (starts with \<open>bar=\<close>) give two sections: \<open>foo\<close>
  with its header line, \<open>a\<close> and \<open>b\<close>, and \<open>bar\<close> with its header line and \<open>c\<close>; the line
  \<open>junk\<close> is in neither.
\<close>

theorem parse_synthetic_document:
  "parseLines [(''foo'', [Lit ''foo:'']), (''bar'', [Lit ''bar=''])]
     [''junk'', ''foo:'', ''a'', ''b'', ''bar='', ''c''] =
   [\<lparr>name = ''foo'', content = ''foo:'' @ nl @ ''a'' @ nl @ ''b'', startLine = 2, endLine = 3\<rparr>,
    \<lparr>name = ''bar'', content = ''bar='' @ nl @ ''c'', startLine = 5, endLine = 6\<rparr>]"
  by code_simp

section \<open>Properties of the section selector\<close>

lemma section_content_absent:
  "nm \<notin> name ` set sections \<Longrightarrow> section_content sections nm = []"
  by (induction sections) (auto simp: section_content_def)

lemma contribution_FromSection:
  "contribution_text sections lines (FromSection nm) = section_content sections nm"
  by (induction sections) (auto simp: section_content_def)

lemma topic_names:
  "fst ` set TOPICS =
     {''operators'', ''pattern_matching'', ''list_patterns'', ''tag_unions'', ''strings'',
      ''effects'', ''loops'', ''conditionals'', ''tuples'', ''records'', ''types'', ''numbers'',
      ''opaque'', ''nominal'', ''functions'', ''imports'', ''testing''}"
  unfolding TOPICS_def by simp

lemma join_joined_with: "join sep blocks = joined_with sep blocks"
  by (induction sep blocks rule: join.induct) (simp_all add: joined_with_def)

lemma separator_literal:
  "separator = [CHR 0x0A, CHR 0x0A, CHR ''-'', CHR ''-'', CHR ''-'', CHR 0x0A, CHR 0x0A]"
  by (simp add: separator_def nl_def)

lemma relevantSections_mapping:
  assumes "t \<in> fst ` set TOPICS"
  shows "map_of topic_mapping t \<noteq> None \<and>
         relevantSections t sections lines =
           map (contribution_text sections lines) (the (map_of topic_mapping t))"
proof -
  from assms have "t \<in> {''operators'', ''pattern_matching'', ''list_patterns'', ''tag_unions'', ''strings'',
      ''effects'', ''loops'', ''conditionals'', ''tuples'', ''records'', ''types'', ''numbers'',
      ''opaque'', ''nominal'', ''functions'', ''imports'', ''testing''}"
    unfolding topic_names .
  then show ?thesis
    by (elim insertE emptyE)
     (simp_all add: topic_mapping_def relevantSections_def contribution_FromSection
        startsWith_prefix includes_js_sublist join_joined_with nl_def unicode_example_def
        del: contribution_text.simps(1))
qed

text \<open>
  Claim C7: for every topic of the table, the examples are what the topic's mapping gives:
  one contribution per mapped section name, the empty string for a name that no parsed
  section has, the empty contributions filtered out and the others joined with the
  separator, which is two newlines, three dashes and two newlines. So the two sections of
  \<open>operators\<close> give the one that is there when the other is missing, and both with the
  separator between them otherwise; for \<open>strings\<close> the fixed unicode example is appended
  whether or not the section is there, after the separator when it is.
\<close>

theorem section_selector:
  "(t \<in> fst ` set TOPICS \<longrightarrow>
      examples_of t sections lines = select_examples t sections lines) \<and>
   (nm \<notin> name ` set sections \<longrightarrow>
      section_content sections nm = [] \<and>
      contribution_text sections lines (FromSection nm) = []) \<and>
   separator = [CHR 0x0A, CHR 0x0A, CHR ''-'', CHR ''-'', CHR ''-'', CHR 0x0A, CHR 0x0A] \<and>
   examples_of ''operators'' sections lines =
     (if section_content sections ''number_operators'' = []
      then section_content sections ''boolean_operators''
      else if section_content sections ''boolean_operators'' = []
      then section_content sections ''number_operators''
      else section_content sections ''number_operators''
        @ [CHR 0x0A, CHR 0x0A, CHR ''-'', CHR ''-'', CHR ''-'', CHR 0x0A, CHR 0x0A]
        @ section_content sections ''boolean_operators'') \<and>
   examples_of ''strings'' sections lines =
     (if section_content sections ''multiline_str'' = []
      then ''Unicode escape: '' @ [CHR 0x22, CHR 0x5C] @ ''u(00A0)'' @ [CHR 0x22]
      else section_content sections ''multiline_str''
        @ [CHR 0x0A, CHR 0x0A, CHR ''-'', CHR ''-'', CHR ''-'', CHR 0x0A, CHR 0x0A]
        @ ''Unicode escape: '' @ [CHR 0x22, CHR 0x5C] @ ''u(00A0)'' @ [CHR 0x22])"
proof (intro conjI impI)
  assume t: "t \<in> fst ` set TOPICS"
  from relevantSections_mapping [OF t, of sections lines]
  show "examples_of t sections lines = select_examples t sections lines"
    by (auto simp: examples_of_def select_examples_def join_joined_with separator_literal)
next
  assume "nm \<notin> name ` set sections"
  then show "section_content sections nm = []"
    by (rule section_content_absent)
next
  assume "nm \<notin> name ` set sections"
  then show "contribution_text sections lines (FromSection nm) = []"
    by simp
next
  show "separator = [CHR 0x0A, CHR 0x0A, CHR ''-'', CHR ''-'', CHR ''-'', CHR 0x0A, CHR 0x0A]"
    by (rule separator_literal)
next
  show "examples_of ''operators'' sections lines =
     (if section_content sections ''number_operators'' = []
      then section_content sections ''boolean_operators''
      else if section_content sections ''boolean_operators'' = []
      then section_content sections ''number_operators''
      else section_content sections ''number_operators''
        @ [CHR 0x0A, CHR 0x0A, CHR ''-'', CHR ''-'', CHR ''-'', CHR 0x0A, CHR 0x0A]
        @ section_content sections ''boolean_operators'')"
    by (simp add: examples_of_def relevantSections_def separator_literal)
next
  show "examples_of ''strings'' sections lines =
     (if section_content sections ''multiline_str'' = []
      then ''Unicode escape: '' @ [CHR 0x22, CHR 0x5C] @ ''u(00A0)'' @ [CHR 0x22]
      else section_content sections ''multiline_str''
        @ [CHR 0x0A, CHR 0x0A, CHR ''-'', CHR ''-'', CHR ''-'', CHR 0x0A, CHR 0x0A]
        @ ''Unicode escape: '' @ [CHR 0x22, CHR 0x5C] @ ''u(00A0)'' @ [CHR 0x22])"
    by (simp add: examples_of_def relevantSections_def separator_literal unicode_example_def)
qed

theorem section_selector_witness:
  "''operators'' \<in> fst ` set TOPICS \<and>
   ''simple_match'' \<notin>
      name ` set [\<lparr>name = ''boolean_operators'', content = ''b : Bool'',
                   startLine = 1, endLine = 0\<rparr>,
                  \<lparr>name = ''number_operators'', content = ''n : I64'',
                   startLine = 2, endLine = 2\<rparr>] \<and>
   section_content
      [\<lparr>name = ''boolean_operators'', content = ''b : Bool'', startLine = 1, endLine = 0\<rparr>,
       \<lparr>name = ''number_operators'', content = ''n : I64'', startLine = 2, endLine = 2\<rparr>]
      ''simple_match'' = [] \<and>
   examples_of ''operators''
      [\<lparr>name = ''boolean_operators'', content = ''b : Bool'', startLine = 1, endLine = 0\<rparr>,
       \<lparr>name = ''number_operators'', content = ''n : I64'', startLine = 2, endLine = 2\<rparr>]
      [''b : Bool'', ''n : I64''] =
     ''n : I64'' @ [CHR 0x0A, CHR 0x0A] @ ''---'' @ [CHR 0x0A, CHR 0x0A] @ ''b : Bool''"
proof -
  let ?secs = "[\<lparr>name = ''boolean_operators'', content = ''b : Bool'', startLine = 1, endLine = 0\<rparr>,
       \<lparr>name = ''number_operators'', content = ''n : I64'', startLine = 2, endLine = 2\<rparr>]"
  have h1: "''operators'' \<in> fst ` set TOPICS"
    by (simp add: TOPICS_def)
  have h2: "''simple_match'' \<notin> name ` set ?secs"
    by simp
  have h3: "select_examples ''operators'' ?secs [''b : Bool'', ''n : I64''] =
     ''n : I64'' @ [CHR 0x0A, CHR 0x0A] @ ''---'' @ [CHR 0x0A, CHR 0x0A] @ ''b : Bool''"
    by code_simp
  from section_selector [of "''operators''" ?secs "[''b : Bool'', ''n : I64'']" "''simple_match''"]
    h1 h2
  have "examples_of ''operators'' ?secs [''b : Bool'', ''n : I64''] =
          select_examples ''operators'' ?secs [''b : Bool'', ''n : I64'']"
    and "section_content ?secs ''simple_match'' = []"
    by blast+
  with h1 h2 h3 show ?thesis by simp
qed

section \<open>The invariant of the parser's loop holds\<close>

lemma patterns_some_first_match:
  "patterns_some rules line \<longleftrightarrow> first_match rules line \<noteq> None"
  by (induction rules) (auto split: if_splits)

lemma first_match_find:
  "first_match rules line = map_option fst (find (\<lambda>r. test (snd r) line) rules)"
  by (induction rules) auto

lemma first_match_Some_iff:
  "first_match rules line = Some nm \<longleftrightarrow>
     (\<exists>k < length rules. fst (rules ! k) = nm \<and> test (snd (rules ! k)) line \<and>
        (\<forall>j < k. \<not> test (snd (rules ! j)) line))"
proof
  assume "first_match rules line = Some nm"
  then obtain r where r: "find (\<lambda>r. test (snd r) line) rules = Some r" "fst r = nm"
    unfolding first_match_find by auto
  from r(1) obtain k where "k < length rules" "test (snd (rules ! k)) line" "r = rules ! k"
    "\<forall>j < k. \<not> test (snd (rules ! j)) line"
    unfolding find_Some_iff by blast
  with r(2) show "\<exists>k < length rules. fst (rules ! k) = nm \<and> test (snd (rules ! k)) line \<and>
        (\<forall>j < k. \<not> test (snd (rules ! j)) line)"
    by blast
next
  assume "\<exists>k < length rules. fst (rules ! k) = nm \<and> test (snd (rules ! k)) line \<and>
        (\<forall>j < k. \<not> test (snd (rules ! j)) line)"
  then obtain k where k: "k < length rules" "fst (rules ! k) = nm" "test (snd (rules ! k)) line"
    "\<forall>j < k. \<not> test (snd (rules ! j)) line"
    by blast
  then have "find (\<lambda>r. test (snd r) line) rules = Some (rules ! k)"
    unfolding find_Some_iff by blast
  with k(2) show "first_match rules line = Some nm"
    unfolding first_match_find by simp
qed

lemma parse_step_no_match:
  "first_match rules line = None \<Longrightarrow>
   parse_step rules i line (secs, cur) =
     (secs, map_option (\<lambda>c. c\<lparr>content := content c @ nl @ line, endLine := i + 1\<rparr>) cur)"
  by (simp add: parse_step_def patterns_some_first_match split: option.splits)

lemma parse_step_match:
  "first_match rules line = Some nm \<Longrightarrow>
   parse_step rules i line (secs, cur) =
     (secs @ (case cur of None \<Rightarrow> [] | Some c \<Rightarrow> [c\<lparr>endLine := i - 1\<rparr>]),
      Some \<lparr>name = nm, content = line, startLine = i + 1, endLine = i + 1\<rparr>)"
  by (simp add: parse_step_def patterns_some_first_match split: option.splits)

lemma parse_loop_append:
  "parse_loop rules i (xs @ ys) st =
     parse_loop rules (i + int (length xs)) ys (parse_loop rules i xs st)"
  by (induction xs arbitrary: i st) (simp_all add: add.assoc)

lemma parse_loop_snoc:
  "parse_loop rules 0 (xs @ [line]) st =
     parse_step rules (int (length xs)) line (parse_loop rules 0 xs st)"
  by (simp add: parse_loop_append)

lemma join_snoc: "xs \<noteq> [] \<Longrightarrow> join sep (xs @ [x]) = join sep xs @ sep @ x"
  by (induction sep xs rule: join.induct) simp_all

lemma header_ok_index: "header_ok rules seen s \<Longrightarrow> nat (startLine s - 1) < length seen"
  unfolding header_ok_def by linarith

lemma header_ok_snoc: "header_ok rules seen s \<Longrightarrow> header_ok rules (seen @ [l]) s"
  using header_ok_index [of rules seen s] by (auto simp: header_ok_def nth_append)

lemma closed_ok_snoc: "closed_ok rules seen s \<Longrightarrow> closed_ok rules (seen @ [l]) s"
  unfolding closed_ok_def
  by (auto simp: header_ok_snoc nth_append header_ok_def)

lemma open_ok_extend:
  assumes "open_ok rules seen c"
  shows "open_ok rules (seen @ [l])
           (c\<lparr>content := content c @ nl @ l, endLine := int (length seen) + 1\<rparr>)"
proof -
  from assms have h: "header_ok rules seen c"
    and c: "content c = join nl (drop (nat (startLine c - 1)) seen)"
    by (simp_all add: open_ok_def)
  from h have "nat (startLine c - 1) < length seen"
    by (rule header_ok_index)
  then have "drop (nat (startLine c - 1)) seen \<noteq> []" by simp
  then have "join nl (drop (nat (startLine c - 1)) seen @ [l]) = content c @ nl @ l"
    by (simp add: join_snoc c)
  moreover have "header_ok rules (seen @ [l]) c"
    using h by (rule header_ok_snoc)
  ultimately show ?thesis
    using \<open>nat (startLine c - 1) < length seen\<close>
    by (simp add: open_ok_def header_ok_def)
qed

lemma open_ok_close:
  assumes "open_ok rules seen c" and "first_match rules l \<noteq> None"
  shows "closed_ok rules (seen @ [l]) (c\<lparr>endLine := int (length seen) - 1\<rparr>)"
proof -
  from assms have h: "header_ok rules seen c"
    and c: "content c = join nl (drop (nat (startLine c - 1)) seen)"
    by (simp_all add: open_ok_def)
  from h have lt: "nat (startLine c - 1) < length seen" and ge: "1 \<le> startLine c"
    by (simp_all add: header_ok_index) (simp add: header_ok_def)
  have "nat (int (length seen) - 1 + 2 - startLine c) = length seen - nat (startLine c - 1)"
    using lt ge by linarith
  then have "take (nat (int (length seen) - 1 + 2 - startLine c))
          (drop (nat (startLine c - 1)) (seen @ [l])) = drop (nat (startLine c - 1)) seen"
    using lt by simp
  moreover have "header_ok rules (seen @ [l]) c" using h by (rule header_ok_snoc)
  moreover have "nat (int (length seen) - 1 + 1) = length seen" by simp
  ultimately show ?thesis
    using assms(2) lt ge c h
    by (simp add: closed_ok_def header_ok_def)
qed

lemma open_ok_new:
  assumes "first_match rules l = Some nm"
  shows "open_ok rules (seen @ [l])
     \<lparr>name = nm, content = l, startLine = int (length seen) + 1, endLine = int (length seen) + 1\<rparr>"
  using assms by (simp add: open_ok_def header_ok_def)


lemma successively_adjacent_last:
  "successively adjacent (secs @ [c]) \<Longrightarrow> startLine c' = startLine c \<Longrightarrow>
   successively adjacent (secs @ [c'])"
  by (auto simp: successively_append_iff adjacent_def)

lemma parse_inv_init: "parse_inv rules [] ([], None)"
  by (simp add: parse_inv_def finish_def)

lemma parse_inv_no_match:
  assumes inv: "parse_inv rules seen (secs, cur)" and l: "first_match rules l = None"
  shows "parse_inv rules (seen @ [l]) (parse_step rules (int (length seen)) l (secs, cur))"
proof (cases cur)
  case None
  with inv have "secs = []"
    and "\<forall>j < length seen. first_match rules (seen ! j) = None"
    by (auto simp: parse_inv_def finish_def)
  with None l show ?thesis
    by (auto simp: parse_step_no_match parse_inv_def finish_def less_Suc_eq nth_append)
next
  case (Some c)
  let ?c = "c\<lparr>content := content c @ nl @ l, endLine := int (length seen) + 1\<rparr>"
  from inv Some have closed: "list_all (closed_ok rules seen) secs"
    and opn: "open_ok rules seen c"
    and adj: "successively adjacent (secs @ [c])"
    and starts: "\<forall>j < length seen. first_match rules (seen ! j) \<noteq> None \<longrightarrow>
         (\<exists>s \<in> set (secs @ [c]). startLine s = int j + 1)"
    by (simp_all add: parse_inv_def finish_def)
  have step: "parse_step rules (int (length seen)) l (secs, cur) = (secs, Some ?c)"
    using l Some by (simp add: parse_step_no_match)
  have 1: "list_all (closed_ok rules (seen @ [l])) secs"
    using closed by (simp add: list_all_iff closed_ok_snoc)
  have 2: "open_ok rules (seen @ [l]) ?c"
    using opn by (rule open_ok_extend)
  have 3: "successively adjacent (secs @ [?c])"
    using adj by (rule successively_adjacent_last) simp
  have 4: "\<exists>s \<in> set (secs @ [?c]). startLine s = int j + 1"
    if "j < length (seen @ [l])" "first_match rules ((seen @ [l]) ! j) \<noteq> None" for j
  proof -
    from that l have "j < length seen" "first_match rules (seen ! j) \<noteq> None"
      by (auto simp: nth_append less_Suc_eq split: if_splits)
    with starts obtain s where "s \<in> set (secs @ [c])" "startLine s = int j + 1"
      by blast
    then show ?thesis by auto
  qed
  from 1 2 3 4 show ?thesis
    unfolding step parse_inv_def finish_def by simp
qed

lemma parse_inv_match:
  assumes inv: "parse_inv rules seen (secs, cur)" and l: "first_match rules l = Some nm"
  shows "parse_inv rules (seen @ [l]) (parse_step rules (int (length seen)) l (secs, cur))"
proof (cases cur)
  case None
  with inv have secs: "secs = []"
    and starts: "\<forall>j < length seen. first_match rules (seen ! j) = None"
    by (auto simp: parse_inv_def finish_def)
  let ?n = "\<lparr>name = nm, content = l, startLine = int (length seen) + 1,
              endLine = int (length seen) + 1\<rparr>"
  have step: "parse_step rules (int (length seen)) l (secs, cur) = ([], Some ?n)"
    using l None secs by (simp add: parse_step_match)
  have 2: "open_ok rules (seen @ [l]) ?n"
    using l by (rule open_ok_new)
  have 4: "\<exists>s \<in> set [?n]. startLine s = int j + 1"
    if "j < length (seen @ [l])" "first_match rules ((seen @ [l]) ! j) \<noteq> None" for j
    using that starts by (auto simp: nth_append less_Suc_eq split: if_splits)
  from 2 4 show ?thesis
    unfolding step parse_inv_def finish_def by simp
next
  case (Some c)
  let ?c = "c\<lparr>endLine := int (length seen) - 1\<rparr>"
  let ?n = "\<lparr>name = nm, content = l, startLine = int (length seen) + 1,
              endLine = int (length seen) + 1\<rparr>"
  from inv Some have closed: "list_all (closed_ok rules seen) secs"
    and opn: "open_ok rules seen c"
    and adj: "successively adjacent (secs @ [c])"
    and starts: "\<forall>j < length seen. first_match rules (seen ! j) \<noteq> None \<longrightarrow>
         (\<exists>s \<in> set (secs @ [c]). startLine s = int j + 1)"
    by (simp_all add: parse_inv_def finish_def)
  have step: "parse_step rules (int (length seen)) l (secs, cur) = (secs @ [?c], Some ?n)"
    using l Some by (simp add: parse_step_match)
  have 1: "list_all (closed_ok rules (seen @ [l])) (secs @ [?c])"
    using closed open_ok_close [OF opn, of l] l
    by (simp add: list_all_iff closed_ok_snoc)
  have 2: "open_ok rules (seen @ [l]) ?n"
    using l by (rule open_ok_new)
  have "successively adjacent (secs @ [?c])"
    using adj by (rule successively_adjacent_last) simp
  moreover have "adjacent ?c ?n"
    using opn by (simp add: adjacent_def open_ok_def header_ok_def)
  ultimately have 3: "successively adjacent ((secs @ [?c]) @ [?n])"
    by (simp add: successively_append_iff)
  have 4: "\<exists>s \<in> set ((secs @ [?c]) @ [?n]). startLine s = int j + 1"
    if "j < length (seen @ [l])" "first_match rules ((seen @ [l]) ! j) \<noteq> None" for j
  proof (cases "j < length seen")
    case True
    with that have "first_match rules (seen ! j) \<noteq> None"
      by (simp add: nth_append)
    with starts True obtain s where "s \<in> set (secs @ [c])" "startLine s = int j + 1"
      by blast
    then show ?thesis by auto
  next
    case False
    with that have "j = length seen" by simp
    then show ?thesis by simp
  qed
  from 1 2 3 4 show ?thesis
    unfolding step parse_inv_def finish_def by simp
qed

lemma parse_inv_step:
  assumes "parse_inv rules seen st"
  shows "parse_inv rules (seen @ [l]) (parse_step rules (int (length seen)) l st)"
proof (cases st)
  case (Pair secs cur)
  with assms show ?thesis
    by (cases "first_match rules l") (auto intro: parse_inv_no_match parse_inv_match)
qed

lemma parse_inv_loop: "parse_inv rules lines (parse_loop rules 0 lines ([], None))"
proof (induction lines rule: rev_induct)
  case Nil
  show ?case by (simp add: parse_inv_init)
next
  case (snoc l lines)
  then show ?case
    unfolding parse_loop_snoc by (rule parse_inv_step)
qed


lemma finish_cases:
  obtains "snd st = None" "finish st = fst st"
  | c where "snd st = Some c" "finish st = fst st @ [c]"
  by (cases "snd st") (auto simp: finish_def)

lemma parse_sections_header:
  assumes "s \<in> set (parseLines rules lines)"
  shows "header_ok rules lines s"
proof -
  let ?st = "parse_loop rules 0 lines ([], None)"
  have inv: "parse_inv rules lines ?st" by (rule parse_inv_loop)
  show ?thesis
  proof (cases ?st rule: finish_cases)
    case 1
    with inv assms show ?thesis
      by (simp add: parse_inv_def parseLines_def)
  next
    case (2 c)
    with inv have "list_all (closed_ok rules lines) (fst ?st)" "open_ok rules lines c"
      by (simp_all add: parse_inv_def)
    with 2 assms show ?thesis
      by (auto simp: parseLines_def list_all_iff closed_ok_def open_ok_def)
  qed
qed

lemma parse_sections_adjacent: "successively adjacent (parseLines rules lines)"
  using parse_inv_loop [of rules lines] by (simp add: parse_inv_def parseLines_def)

lemma parse_sections_closed:
  assumes "Suc k < length (parseLines rules lines)"
  shows "closed_ok rules lines (parseLines rules lines ! k)"
proof -
  let ?st = "parse_loop rules 0 lines ([], None)"
  have inv: "parse_inv rules lines ?st" by (rule parse_inv_loop)
  show ?thesis
  proof (cases ?st rule: finish_cases)
    case 1
    with inv assms show ?thesis
      by (simp add: parse_inv_def parseLines_def)
  next
    case (2 c)
    with inv have "list_all (closed_ok rules lines) (fst ?st)"
      by (simp add: parse_inv_def)
    moreover from 2 assms have "k < length (fst ?st)"
      by (simp add: parseLines_def)
    ultimately show ?thesis
      using 2 by (simp add: parseLines_def list_all_length nth_append)
  qed
qed

lemma parse_sections_open:
  assumes "parseLines rules lines \<noteq> []"
  shows "open_ok rules lines (last (parseLines rules lines))"
proof -
  let ?st = "parse_loop rules 0 lines ([], None)"
  have inv: "parse_inv rules lines ?st" by (rule parse_inv_loop)
  show ?thesis
  proof (cases ?st rule: finish_cases)
    case 1
    with inv assms show ?thesis
      by (simp add: parse_inv_def parseLines_def)
  next
    case (2 c)
    with inv show ?thesis
      by (simp add: parse_inv_def parseLines_def)
  qed
qed

lemma parse_sections_starts:
  assumes "j < length lines" "first_match rules (lines ! j) \<noteq> None"
  shows "\<exists>s \<in> set (parseLines rules lines). startLine s = int j + 1"
  using parse_inv_loop [of rules lines] assms by (simp add: parse_inv_def parseLines_def)

lemma transp_before: "transp (\<lambda>a b. startLine a < startLine b \<and> endLine a + 2 \<le> startLine b)"
  by (rule transpI) auto

lemma parse_sections_sorted:
  "sorted_wrt (\<lambda>a b. startLine a < startLine b \<and> endLine a + 2 \<le> startLine b)
     (parseLines rules lines)"
proof -
  have "successively (\<lambda>a b. startLine a < startLine b \<and> endLine a + 2 \<le> startLine b)
     (parseLines rules lines)"
    using parse_sections_adjacent [of rules lines]
    by (rule successively_mono) (simp add: adjacent_def)
  then show ?thesis
    by (simp add: successively_conv_sorted_wrt [OF transp_before])
qed

lemma parse_step_shift:
  "parse_step rules (i + d) l (map_prod (map (shift_section d)) (map_option (shift_section d)) st) =
   map_prod (map (shift_section d)) (map_option (shift_section d)) (parse_step rules i l st)"
proof (cases st)
  case (Pair secs cur)
  show ?thesis
  proof (cases "first_match rules l")
    case None
    then show ?thesis
      unfolding Pair by (cases cur) (simp_all add: parse_step_no_match shift_section_def)
  next
    case (Some nm)
    then show ?thesis
      unfolding Pair by (cases cur) (simp_all add: parse_step_match shift_section_def)
  qed
qed

lemma parse_loop_shift:
  "parse_loop rules (i + d) ls (map_prod (map (shift_section d)) (map_option (shift_section d)) st) =
   map_prod (map (shift_section d)) (map_option (shift_section d)) (parse_loop rules i ls st)"
proof (induction ls arbitrary: i st)
  case Nil
  show ?case by simp
next
  case (Cons l ls)
  have "i + d + 1 = (i + 1) + d" by simp
  then show ?case
    by (simp only: parse_loop.simps parse_step_shift Cons.IH)
qed

lemma parse_loop_skip:
  "\<forall>l \<in> set pre. first_match rules l = None \<Longrightarrow> parse_loop rules i pre ([], None) = ([], None)"
  by (induction pre arbitrary: i) (simp_all add: parse_step_no_match)

lemma finish_shift:
  "finish (map_prod (map (shift_section d)) (map_option (shift_section d)) st) =
   map (shift_section d) (finish st)"
  by (cases st) (simp add: finish_def split: option.splits)

lemma parseLines_skip:
  assumes "\<forall>l \<in> set pre. first_match rules l = None"
  shows "parseLines rules (pre @ rest) =
         map (shift_section (int (length pre))) (parseLines rules rest)"
proof -
  have "parse_loop rules 0 (pre @ rest) ([], None) =
        parse_loop rules (0 + int (length pre)) rest
          (map_prod (map (shift_section (int (length pre))))
             (map_option (shift_section (int (length pre)))) ([], None))"
    by (simp add: parse_loop_append parse_loop_skip [OF assms])
  then have "parse_loop rules 0 (pre @ rest) ([], None) =
        map_prod (map (shift_section (int (length pre))))
             (map_option (shift_section (int (length pre))))
          (parse_loop rules 0 rest ([], None))"
    by (simp only: parse_loop_shift)
  then show ?thesis
    by (simp add: parseLines_def finish_shift)
qed

lemma first_match_None_iff:
  "first_match rules line = None \<longleftrightarrow> (\<forall>r \<in> set rules. \<not> test (snd r) line)"
  by (induction rules) (auto split: if_splits)

lemma parse_sections_back_to_back:
  assumes j: "Suc j < length lines"
    and m1: "first_match rules (lines ! j) \<noteq> None"
    and m2: "first_match rules (lines ! Suc j) \<noteq> None"
  shows "\<exists>k. Suc k < length (parseLines rules lines) \<and>
             startLine (parseLines rules lines ! k) = int j + 1 \<and>
             startLine (parseLines rules lines ! Suc k) = int j + 2"
proof -
  let ?ss = "parseLines rules lines"
  from j m1 obtain k where k: "k < length ?ss" "startLine (?ss ! k) = int j + 1"
    using parse_sections_starts [of j lines rules] by (auto simp: in_set_conv_nth)
  from j m2 obtain k' where k': "k' < length ?ss" "startLine (?ss ! k') = int (Suc j) + 1"
    using parse_sections_starts [of "Suc j" lines rules] by (auto simp: in_set_conv_nth)
  have lt: "startLine (?ss ! a) < startLine (?ss ! b)" if "a < b" "b < length ?ss" for a b
    using sorted_wrt_nth_less [OF parse_sections_sorted that] by simp
  have "k < k'"
  proof (rule ccontr)
    assume "\<not> k < k'"
    then consider "k' = k" | "k' < k" by linarith
    then show False
    proof cases
      case 1
      with k k' show False by simp
    next
      case 2
      from lt [OF 2 k(1)] k k' show False by simp
    qed
  qed
  have "k' = Suc k"
  proof (rule ccontr)
    assume "k' \<noteq> Suc k"
    with \<open>k < k'\<close> have "Suc k < k'" by simp
    from lt [OF this k'(1)] lt [of k "Suc k"] \<open>Suc k < k'\<close> k k' show False by simp
  qed
  with k k' show ?thesis by auto
qed

section \<open>Sections of every document\<close>

text \<open>
  Claim C8: for every list of lines (those of \<open>parseSyntaxSections\<close> are
  \<open>split_nl text\<close>, with the rules \<open>sectionPatterns\<close>) and every catalog of rules, the
  sections come in the order of their start lines and their line ranges do not overlap,
  neither as recorded nor with the one line more that the content of a closed section
  really has; each section starts at a line of the document, carries the name of the first rule
  of the catalog that the line passes, although later rules may pass too, and starts after
  every leading run of lines that pass no rule; such leading lines change nothing of
  the result but the line numbers; and every line that passes a rule, whether one or
  several, is the header of exactly one section, which carries the name of the first rule
  of the catalog that the line passes.
\<close>

theorem parse_sections_invariant:
  "sorted_wrt (\<lambda>a b. startLine a < startLine b \<and> endLine a + 1 < startLine b)
     (parseLines rules lines) \<and>
   (\<forall>s \<in> set (parseLines rules lines).
      1 \<le> startLine s \<and> startLine s \<le> int (length lines) \<and>
      (\<exists>k < length rules.
         name s = fst (rules ! k) \<and> test (snd (rules ! k)) (lines ! nat (startLine s - 1)) \<and>
         (\<forall>j < k. \<not> test (snd (rules ! j)) (lines ! nat (startLine s - 1)))) \<and>
      (\<forall>n \<le> length lines.
         (\<forall>j < n. \<forall>r \<in> set rules. \<not> test (snd r) (lines ! j)) \<longrightarrow> int n < startLine s)) \<and>
   ((\<forall>l \<in> set pre. \<forall>r \<in> set rules. \<not> test (snd r) l) \<longrightarrow>
      parseLines rules (pre @ rest) =
        map (shift_section (int (length pre))) (parseLines rules rest)) \<and>
   (\<forall>j < length lines. \<forall>k < length rules.
      test (snd (rules ! k)) (lines ! j) \<and> (\<forall>i < k. \<not> test (snd (rules ! i)) (lines ! j)) \<longrightarrow>
      (\<exists>s \<in> set (parseLines rules lines).
         startLine s = int j + 1 \<and> name s = fst (rules ! k) \<and>
         (\<forall>s' \<in> set (parseLines rules lines). startLine s' = int j + 1 \<longrightarrow> s' = s)))"
proof (intro conjI ballI impI)
  show "sorted_wrt (\<lambda>a b. startLine a < startLine b \<and> endLine a + 1 < startLine b)
     (parseLines rules lines)"
    using parse_sections_sorted [of rules lines]
    by (rule sorted_wrt_mono_rel [rotated]) simp
next
  fix s assume "s \<in> set (parseLines rules lines)"
  then have h: "header_ok rules lines s" by (rule parse_sections_header)
  from h show "1 \<le> startLine s" "startLine s \<le> int (length lines)"
    by (simp_all add: header_ok_def)
  from h have fm: "first_match rules (lines ! nat (startLine s - 1)) = Some (name s)"
    by (simp add: header_ok_def)
  then show "\<exists>k < length rules.
         name s = fst (rules ! k) \<and> test (snd (rules ! k)) (lines ! nat (startLine s - 1)) \<and>
         (\<forall>j < k. \<not> test (snd (rules ! j)) (lines ! nat (startLine s - 1)))"
    unfolding first_match_Some_iff by metis
  show "\<forall>n \<le> length lines.
         (\<forall>j < n. \<forall>r \<in> set rules. \<not> test (snd r) (lines ! j)) \<longrightarrow> int n < startLine s"
  proof (intro allI impI)
    fix n assume "n \<le> length lines"
      and none: "\<forall>j < n. \<forall>r \<in> set rules. \<not> test (snd r) (lines ! j)"
    show "int n < startLine s"
    proof (rule ccontr)
      assume "\<not> int n < startLine s"
      with h have "nat (startLine s - 1) < n"
        unfolding header_ok_def by linarith
      with none have "first_match rules (lines ! nat (startLine s - 1)) = None"
        by (simp add: first_match_None_iff)
      with fm show False by simp
    qed
  qed
next
  assume "\<forall>l \<in> set pre. \<forall>r \<in> set rules. \<not> test (snd r) l"
  then have "\<forall>l \<in> set pre. first_match rules l = None"
    by (simp add: first_match_None_iff)
  then show "parseLines rules (pre @ rest) =
        map (shift_section (int (length pre))) (parseLines rules rest)"
    by (rule parseLines_skip)
next
  show "\<forall>j < length lines. \<forall>k < length rules.
      test (snd (rules ! k)) (lines ! j) \<and> (\<forall>i < k. \<not> test (snd (rules ! i)) (lines ! j)) \<longrightarrow>
      (\<exists>s \<in> set (parseLines rules lines).
         startLine s = int j + 1 \<and> name s = fst (rules ! k) \<and>
         (\<forall>s' \<in> set (parseLines rules lines). startLine s' = int j + 1 \<longrightarrow> s' = s))"
  proof (intro allI impI)
    fix j k
    assume j: "j < length lines" and k: "k < length rules"
      and first: "test (snd (rules ! k)) (lines ! j) \<and>
                  (\<forall>i < k. \<not> test (snd (rules ! i)) (lines ! j))"
    let ?ss = "parseLines rules lines"
    from k first have fm: "first_match rules (lines ! j) = Some (fst (rules ! k))"
      unfolding first_match_Some_iff by blast
    with j obtain s where s: "s \<in> set ?ss" "startLine s = int j + 1"
      using parse_sections_starts [of j lines rules] by auto
    from s(1) have "first_match rules (lines ! nat (startLine s - 1)) = Some (name s)"
      using parse_sections_header [of s rules lines] by (simp add: header_ok_def)
    with s(2) fm have nm: "name s = fst (rules ! k)"
      by simp
    have uniq: "s' = s" if s': "s' \<in> set ?ss" "startLine s' = int j + 1" for s'
    proof -
      from s(1) obtain a where a: "a < length ?ss" "?ss ! a = s"
        by (auto simp: in_set_conv_nth)
      from s'(1) obtain b where b: "b < length ?ss" "?ss ! b = s'"
        by (auto simp: in_set_conv_nth)
      have lt: "startLine (?ss ! x) < startLine (?ss ! y)" if "x < y" "y < length ?ss" for x y
        using sorted_wrt_nth_less [OF parse_sections_sorted that] by simp
      have "a = b"
      proof (rule ccontr)
        assume "a \<noteq> b"
        then consider "a < b" | "b < a" by linarith
        then show False
        proof cases
          case 1
          from lt [OF 1 b(1)] a b s s' show False by simp
        next
          case 2
          from lt [OF 2 a(1)] a b s s' show False by simp
        qed
      qed
      with a b show ?thesis by simp
    qed
    from s nm uniq show "\<exists>s \<in> set ?ss.
         startLine s = int j + 1 \<and> name s = fst (rules ! k) \<and>
         (\<forall>s' \<in> set ?ss. startLine s' = int j + 1 \<longrightarrow> s' = s)"
      by blast
  qed
qed

theorem parse_sections_invariant_witness:
  "parseLines [(''foo'', [Lit ''foo'']), (''foobar'', [Lit ''foobar''])]
      ([''junk'', ''more junk''] @ [''foobar'', ''x'', ''foo'']) =
     map (shift_section 2)
       (parseLines [(''foo'', [Lit ''foo'']), (''foobar'', [Lit ''foobar''])]
          [''foobar'', ''x'', ''foo'']) \<and>
   parseLines [(''foo'', [Lit ''foo'']), (''foobar'', [Lit ''foobar''])]
      ([''junk'', ''more junk''] @ [''foobar'', ''x'', ''foo'']) =
     [\<lparr>name = ''foo'', content = ''foobar'' @ nl @ ''x'', startLine = 3, endLine = 3\<rparr>,
      \<lparr>name = ''foo'', content = ''foo'', startLine = 5, endLine = 5\<rparr>] \<and>
   sorted_wrt (\<lambda>a b. startLine a < startLine b \<and> endLine a + 1 < startLine b)
     (parseLines [(''foo'', [Lit ''foo'']), (''foobar'', [Lit ''foobar''])]
        ([''junk'', ''more junk''] @ [''foobar'', ''x'', ''foo''])) \<and>
   test [Lit ''foo''] ''foobar'' \<and> test [Lit ''foobar''] ''foobar'' \<and>
   (\<exists>s \<in> set (parseLines [(''foo'', [Lit ''foo'']), (''foobar'', [Lit ''foobar''])]
                  ([''junk'', ''more junk''] @ [''foobar'', ''x'', ''foo''])).
      startLine s = 3 \<and> name s = ''foo'' \<and>
      (\<forall>s' \<in> set (parseLines [(''foo'', [Lit ''foo'']), (''foobar'', [Lit ''foobar''])]
                     ([''junk'', ''more junk''] @ [''foobar'', ''x'', ''foo''])).
         startLine s' = 3 \<longrightarrow> s' = s))"
proof -
  let ?rules = "[(''foo'', [Lit ''foo'']), (''foobar'', [Lit ''foobar''])]"
  let ?pre = "[''junk'', ''more junk'']"
  let ?rest = "[''foobar'', ''x'', ''foo'']"
  have h: "\<forall>l \<in> set ?pre. \<forall>r \<in> set ?rules. \<not> test (snd r) l"
    by code_simp
  have v: "parseLines ?rules (?pre @ ?rest) =
     [\<lparr>name = ''foo'', content = ''foobar'' @ nl @ ''x'', startLine = 3, endLine = 3\<rparr>,
      \<lparr>name = ''foo'', content = ''foo'', startLine = 5, endLine = 5\<rparr>]"
    by code_simp
  from parse_sections_invariant [of ?rules "?pre @ ?rest" ?pre ?rest] h
  have "parseLines ?rules (?pre @ ?rest) =
          map (shift_section (int (length ?pre))) (parseLines ?rules ?rest)"
    and "sorted_wrt (\<lambda>a b. startLine a < startLine b \<and> endLine a + 1 < startLine b)
          (parseLines ?rules (?pre @ ?rest))"
    by blast+
  note shifted = this
  have both: "test [Lit ''foo''] ''foobar''" "test [Lit ''foobar''] ''foobar''"
    by code_simp+
  have m: "2 < length (?pre @ ?rest) \<and> 0 < length ?rules \<and>
           test (snd (?rules ! 0)) ((?pre @ ?rest) ! 2) \<and>
           (\<forall>i < 0. \<not> test (snd (?rules ! i)) ((?pre @ ?rest) ! 2))"
    using both(1) by simp
  from parse_sections_invariant [of ?rules "?pre @ ?rest" ?pre ?rest] m
  have "\<exists>s \<in> set (parseLines ?rules (?pre @ ?rest)).
         startLine s = int 2 + 1 \<and> name s = fst (?rules ! 0) \<and>
         (\<forall>s' \<in> set (parseLines ?rules (?pre @ ?rest)). startLine s' = int 2 + 1 \<longrightarrow> s' = s)"
    by blast
  then have "\<exists>s \<in> set (parseLines ?rules (?pre @ ?rest)).
         startLine s = 3 \<and> name s = ''foo'' \<and>
         (\<forall>s' \<in> set (parseLines ?rules (?pre @ ?rest)). startLine s' = 3 \<longrightarrow> s' = s)"
    by simp
  with shifted v both show ?thesis by simp
qed

text \<open>
  Claim C10: a section that is followed by another one was closed by the header line of its
  successor, whose 0-based index is \<open>startLine\<close> of the successor minus one; the recorded
  \<open>endLine\<close> is one less than that index, while the content runs up to the line just before
  the closing line, whose 1-based number is that index, so \<open>endLine\<close> is one less than the
  1-based number of the last line of the section. The last section records the 1-based
  number of its last line. For two consecutive lines that both pass a rule, the section of
  the first has its header as only content and \<open>endLine = startLine - 1\<close>.
\<close>

theorem closed_section_endLine:
  assumes ss: "ss = parseLines rules lines"
  shows "(\<forall>k. Suc k < length ss \<longrightarrow>
            1 \<le> startLine (ss ! k) \<and> startLine (ss ! k) < startLine (ss ! Suc k) \<and>
            startLine (ss ! Suc k) \<le> int (length lines) \<and>
            first_match rules (lines ! nat (startLine (ss ! Suc k) - 1)) \<noteq> None \<and>
            endLine (ss ! k) = (startLine (ss ! Suc k) - 1) - 1 \<and>
            content (ss ! k) =
              join nl (take (nat (startLine (ss ! Suc k) - startLine (ss ! k)))
                         (drop (nat (startLine (ss ! k) - 1)) lines))) \<and>
         (ss \<noteq> [] \<longrightarrow>
            endLine (last ss) = int (length lines) \<and>
            content (last ss) = join nl (drop (nat (startLine (last ss) - 1)) lines)) \<and>
         (\<forall>j. Suc j < length lines \<and> first_match rules (lines ! j) \<noteq> None \<and>
              first_match rules (lines ! Suc j) \<noteq> None \<longrightarrow>
            (\<exists>s \<in> set ss. startLine s = int j + 1 \<and> endLine s = startLine s - 1 \<and>
               endLine s < startLine s \<and> content s = lines ! j))"
proof (intro conjI allI impI)
  fix k assume k: "Suc k < length ss"
  let ?a = "ss ! k" and ?b = "ss ! Suc k"
  from k have c: "closed_ok rules lines ?a"
    unfolding ss by (rule parse_sections_closed)
  from k have adj: "adjacent ?a ?b"
    using successively_nth [OF parse_sections_adjacent, of k rules lines] by (simp add: ss)
  from k have "?b \<in> set ss" by simp
  then have hb: "header_ok rules lines ?b"
    unfolding ss by (rule parse_sections_header)
  from c show "1 \<le> startLine ?a" by (simp add: closed_ok_def header_ok_def)
  from adj show "startLine ?a < startLine ?b" by (simp add: adjacent_def)
  from hb show "startLine ?b \<le> int (length lines)" by (simp add: header_ok_def)
  from hb show "first_match rules (lines ! nat (startLine ?b - 1)) \<noteq> None"
    by (simp add: header_ok_def)
  from adj show "endLine ?a = (startLine ?b - 1) - 1" by (simp add: adjacent_def)
  from adj have "endLine ?a + 2 - startLine ?a = startLine ?b - startLine ?a"
    by (simp add: adjacent_def)
  with c show "content ?a =
      join nl (take (nat (startLine ?b - startLine ?a)) (drop (nat (startLine ?a - 1)) lines))"
    by (simp add: closed_ok_def)
next
  assume "ss \<noteq> []"
  then have o: "open_ok rules lines (last ss)"
    unfolding ss by (rule parse_sections_open)
  then show "endLine (last ss) = int (length lines)"
    and "content (last ss) = join nl (drop (nat (startLine (last ss) - 1)) lines)"
    by (simp_all add: open_ok_def)
next
  fix j
  assume "Suc j < length lines \<and> first_match rules (lines ! j) \<noteq> None \<and>
          first_match rules (lines ! Suc j) \<noteq> None"
  then obtain k where k: "Suc k < length ss" "startLine (ss ! k) = int j + 1"
      "startLine (ss ! Suc k) = int j + 2" and j: "j < length lines"
    using parse_sections_back_to_back [of j lines rules] unfolding ss by auto
  from k(1) have c: "closed_ok rules lines (ss ! k)"
    unfolding ss by (rule parse_sections_closed)
  from k(1) have adj: "adjacent (ss ! k) (ss ! Suc k)"
    using successively_nth [OF parse_sections_adjacent, of k rules lines] by (simp add: ss)
  with k have e: "endLine (ss ! k) = int j"
    by (simp add: adjacent_def)
  have "take (Suc 0) (drop j lines) = [lines ! j]"
    using j by (simp add: Cons_nth_drop_Suc [symmetric])
  with c k e have "content (ss ! k) = lines ! j"
    by (simp add: closed_ok_def)
  with k e show "\<exists>s \<in> set ss. startLine s = int j + 1 \<and> endLine s = startLine s - 1 \<and>
               endLine s < startLine s \<and> content s = lines ! j"
    by (intro bexI [of _ "ss ! k"]) simp_all
qed

theorem closed_section_endLine_witness:
  "parseLines [(''foo'', [Lit ''foo:'']), (''bar'', [Lit ''bar=''])] [''foo:'', ''bar='', ''c''] =
     [\<lparr>name = ''foo'', content = ''foo:'', startLine = 1, endLine = 0\<rparr>,
      \<lparr>name = ''bar'', content = ''bar='' @ nl @ ''c'', startLine = 2, endLine = 3\<rparr>] \<and>
   (\<exists>s \<in> set (parseLines [(''foo'', [Lit ''foo:'']), (''bar'', [Lit ''bar=''])]
                  [''foo:'', ''bar='', ''c'']).
      startLine s = 1 \<and> endLine s = startLine s - 1 \<and> endLine s < startLine s \<and>
      content s = ''foo:'')"
proof -
  let ?rules = "[(''foo'', [Lit ''foo:'']), (''bar'', [Lit ''bar=''])]"
  let ?lines = "[''foo:'', ''bar='', ''c'']"
  have v: "parseLines ?rules ?lines =
     [\<lparr>name = ''foo'', content = ''foo:'', startLine = 1, endLine = 0\<rparr>,
      \<lparr>name = ''bar'', content = ''bar='' @ nl @ ''c'', startLine = 2, endLine = 3\<rparr>]"
    by code_simp
  have m: "Suc 0 < length ?lines \<and> first_match ?rules (?lines ! 0) \<noteq> None \<and>
           first_match ?rules (?lines ! Suc 0) \<noteq> None"
    by code_simp
  from closed_section_endLine [OF refl, of ?rules ?lines] m
  have "\<exists>s \<in> set (parseLines ?rules ?lines).
      startLine s = int 0 + 1 \<and> endLine s = startLine s - 1 \<and> endLine s < startLine s \<and>
      content s = ?lines ! 0"
    by blast
  with v show ?thesis by simp
qed

end
